theory Spec2Isabelle
  imports Complex_Main
begin

section \<open>Mutation detector (scripts/analysis\_functions.py)\<close>

text \<open>
  A mutation record is the dictionary built by \<open>detect_mutations_simple\<close>, with the keys
  \<open>'type'\<close>, \<open>'position'\<close>, \<open>'original'\<close> and \<open>'mutated'\<close>. The three strings used for
  \<open>'type'\<close> are the constructors of \<open>mutation_type\<close>. A sequence is a Python \<open>str\<close>,
  modelled as a list of characters.
\<close>

datatype mutation_type = Substitution | Insertion | Deletion

record mutation =
  mtype :: mutation_type
  position :: nat
  original :: string
  mutated :: string

text \<open>
  The loop \<open>for i in range(min_len)\<close> with the list \<open>mutations\<close> it appends to. Both
  reads \<open>reference_sequence[i]\<close> and \<open>comparison_sequence[i]\<close> are in range, since
  \<open>i < min_len\<close>.
\<close>

function substitution_loop ::
  "string \<Rightarrow> string \<Rightarrow> nat \<Rightarrow> nat \<Rightarrow> mutation list \<Rightarrow> mutation list" where
  "substitution_loop reference_sequence comparison_sequence min_len i mutations =
     (if i < min_len then
        substitution_loop reference_sequence comparison_sequence min_len (Suc i)
          (if reference_sequence ! i \<noteq> comparison_sequence ! i
           then mutations @
                [\<lparr>mtype = Substitution, position = i,
                  original = [reference_sequence ! i],
                  mutated = [comparison_sequence ! i]\<rparr>]
           else mutations)
      else mutations)"
  by pat_completeness auto
termination
  by (relation "measure (\<lambda>(r, c, min_len, i, ms). min_len - i)") auto

declare substitution_loop.simps [simp del]

definition detect_mutations_simple :: "string \<Rightarrow> string \<Rightarrow> mutation list" where
  "detect_mutations_simple reference_sequence comparison_sequence =
     (let ref_len = length reference_sequence;
          comp_len = length comparison_sequence;
          min_len = min ref_len comp_len;
          mutations = substitution_loop reference_sequence comparison_sequence min_len 0 []
      in if comp_len > ref_len then
           mutations @ [\<lparr>mtype = Insertion, position = min_len, original = [],
                          mutated = drop min_len comparison_sequence\<rparr>]
         else if ref_len > comp_len then
           mutations @ [\<lparr>mtype = Deletion, position = min_len,
                          original = drop min_len reference_sequence, mutated = []\<rparr>]
         else mutations)"

text \<open>
  Exchanging the roles of reference and comparison on one record, as the specification
  words it: a substitution keeps its type, an insertion becomes a deletion and a deletion
  an insertion; the position stays and the two texts change places.
\<close>

definition swap_mutation :: "mutation \<Rightarrow> mutation" where
  "swap_mutation m =
     \<lparr>mtype = (case mtype m of Substitution \<Rightarrow> Substitution
                | Insertion \<Rightarrow> Deletion | Deletion \<Rightarrow> Insertion),
      position = position m, original = mutated m, mutated = original m\<rparr>"

section \<open>Variation rate (app.py) and GC content (scripts/analysis\_functions.py)\<close>

text \<open>
  Python exceptions that the modelled code can meet. \<open>ReError\<close> is \<open>re.error\<close> with its
  message; \<open>DatabaseError\<close> stands for any error the database driver raises for a
  rejected statement.
\<close>

datatype py_exception = ZeroDivisionError | TypeError | DatabaseError | ReError string

text \<open>
  What a call can do: return a value, raise, or fall outside what is modelled. A call
  that does not return at all is \<open>None\<close> in an \<open>option\<close> around it.
\<close>

datatype 'a outcome = Returns 'a | Raises py_exception | Unmodelled

subsection \<open>Floats\<close>

text \<open>
  A Python \<open>float\<close> is an IEEE 754 binary64 number, modelled as the rational it denotes.
  \<open>binary64 q\<close> is the float nearest to \<open>q\<close>, a tie going to the even significand: with
  \<open>2 ^ e \<le> \<bar>q\<bar> < 2 ^ (e + 1)\<close> it is the nearest multiple of \<open>2 ^ (e - 52)\<close>. The range
  of the exponent is not modelled (no overflow, no subnormal numbers); the values computed
  here lie far inside it.
\<close>

text \<open>The integer nearest to \<open>x\<close>, a tie going to the even one.\<close>

definition round_half_even :: "rat \<Rightarrow> int" where
  "round_half_even x =
     (let f = \<lfloor>x\<rfloor>; d = x - of_int f
      in if d < 1 / 2 then f else if 1 / 2 < d then f + 1 else if even f then f else f + 1)"

text \<open>The number of binary digits of a positive integer.\<close>

function bit_length :: "int \<Rightarrow> nat" where
  "bit_length n = (if n \<le> 0 then 0 else Suc (bit_length (n div 2)))"
  by pat_completeness auto
termination
  by (relation "measure nat") auto

declare bit_length.simps [simp del]

text \<open>
  The binary exponent of a positive rational: the \<open>e\<close> with \<open>2 ^ e \<le> q < 2 ^ (e + 1)\<close>,
  found from the digits of numerator and denominator.
\<close>

definition float_exponent :: "rat \<Rightarrow> int" where
  "float_exponent q =
     (let (a, b) = quotient_of q;
          e0 = int (bit_length a) - int (bit_length b)
      in if 2 powi e0 \<le> q then e0 else e0 - 1)"

definition binary64 :: "rat \<Rightarrow> rat" where
  "binary64 q =
     (if q = 0 then 0
      else
        (let ulp = 2 powi (float_exponent \<bar>q\<bar> - 52)
         in sgn q * of_int (round_half_even (\<bar>q\<bar> / ulp)) * ulp))"

text \<open>
  True division \<open>a / b\<close> of two non-negative integers gives the float nearest to the
  quotient and raises \<open>ZeroDivisionError\<close> for \<open>b = 0\<close>; the product of two floats is the
  float nearest to their product.
\<close>

definition py_truediv :: "nat \<Rightarrow> nat \<Rightarrow> py_exception + rat" where
  "py_truediv a b =
     (if b = 0 then Inl ZeroDivisionError else Inr (binary64 (of_nat a / of_nat b)))"

definition py_float_mul :: "rat \<Rightarrow> rat \<Rightarrow> rat" where
  "py_float_mul x y = binary64 (x * y)"

text \<open>
  \<open>round(x, 2)\<close> of a float: the exact value of \<open>x\<close> is rounded to the closest multiple of
  \<open>1/100\<close>, a tie going to the even multiple, and the result is the float nearest to that
  decimal number.
\<close>

definition py_round2 :: "rat \<Rightarrow> rat" where
  "py_round2 x = binary64 (of_int (round_half_even (x * 100)) / 100)"

subsection \<open>Variation rate\<close>

text \<open>
  The variation rate of the comparison tool, from the saved list of variations and the two
  saved sequence lengths:
  \<^verbatim>\<open>seq_len = min(ref_seq_len, comp_seq_len)\<close>,
  \<^verbatim>\<open>variation_rate = (len(variations) / seq_len) * 100 if seq_len > 0 else 0\<close>.
\<close>

definition variation_rate :: "mutation list \<Rightarrow> nat \<Rightarrow> nat \<Rightarrow> py_exception + rat" where
  "variation_rate variations ref_seq_len comp_seq_len =
     (let seq_len = min ref_seq_len comp_seq_len
      in if seq_len > 0 then
           (case py_truediv (length variations) seq_len of
              Inl e \<Rightarrow> Inl e
            | Inr q \<Rightarrow> Inr (py_float_mul q 100))
         else Inr 0)"

subsection \<open>GC content\<close>

text \<open>
  A character of a sequence is a code point below 256. \<open>str.upper\<close> follows the Unicode
  case mapping: the letters \<open>a\<close> to \<open>z\<close> and the accented small letters \<open>U+00E0\<close> to
  \<open>U+00FE\<close> (without the division sign \<open>U+00F7\<close>) move down by 32, the sharp s \<open>U+00DF\<close>
  becomes the two letters \<open>SS\<close>, and every other code point stays, except the micro sign
  \<open>U+00B5\<close> and \<open>U+00FF\<close>, whose capitals lie beyond 255: for them the result is \<open>None\<close>,
  and a sequence that holds one is outside the model.
\<close>

definition upper_char :: "char \<Rightarrow> string option" where
  "upper_char c =
     (let n = (of_char c :: nat)
      in if 97 \<le> n \<and> n \<le> 122 then Some [char_of (n - 32)]
         else if n = 223 then Some ''SS''
         else if n = 181 \<or> n = 255 then None
         else if 224 \<le> n \<and> n \<le> 254 \<and> n \<noteq> 247 then Some [char_of (n - 32)]
         else Some [c])"

fun upper :: "string \<Rightarrow> string option" where
  "upper [] = Some []"
| "upper (c # cs) =
     (case upper_char c of
        None \<Rightarrow> None
      | Some u \<Rightarrow> (case upper cs of None \<Rightarrow> None | Some us \<Rightarrow> Some (u @ us)))"

text \<open>\<open>str.count\<close> of a single character.\<close>

definition count_char :: "string \<Rightarrow> char \<Rightarrow> nat" where
  "count_char s c = length (filter (\<lambda>x. x = c) s)"

text \<open>
  The function rebinds \<open>sequence\<close> to its upper-case form before it counts and before it
  takes the length: the divisor is the length of the upper-case string.
\<close>

definition calculate_gc_content :: "string \<Rightarrow> rat outcome" where
  "calculate_gc_content sequence =
     (if sequence = [] then Returns 0
      else
        (case upper sequence of
           None \<Rightarrow> Unmodelled
         | Some sequence' \<Rightarrow>
             (let g_count = count_char sequence' CHR ''G'';
                  c_count = count_char sequence' CHR ''C''
              in case py_truediv (g_count + c_count) (length sequence') of
                   Inl e \<Rightarrow> Raises e
                 | Inr q \<Rightarrow> Returns (py_round2 (py_float_mul q 100)))))"

text \<open>
  The number of \<open>G\<close> and \<open>C\<close> in a sequence, in either case, as the specification counts
  them, and the sequences over the ASCII alphabet.
\<close>

definition gc_count :: "string \<Rightarrow> nat" where
  "gc_count s = length (filter (\<lambda>c. c \<in> {CHR ''G'', CHR ''g'', CHR ''C'', CHR ''c''}) s)"

definition ascii :: "string \<Rightarrow> bool" where
  "ascii s = list_all (\<lambda>c. (of_char c :: nat) < 128) s"

section \<open>Pattern matcher (scripts/analysis\_functions.py)\<close>

subsection \<open>The regular expressions of the \<open>re\<close> module\<close>

text \<open>
  \<open>find_patterns_regex\<close> hands its pattern to \<open>re.finditer\<close> of the Python standard
  library. The part of the library that the matcher relies on is modelled here after its
  documented behaviour (Python 3.7 and later, which the imports of the application
  require), for this dialect: literal characters, \<open>.\<close>, character sets \<open>[...]\<close> and
  \<open>[^...]\<close> with ranges, capturing groups \<open>(...)\<close>, alternation \<open>|\<close> and the greedy
  repetitions \<open>*\<close>, \<open>+\<close> and \<open>?\<close>. A pattern that uses anything else (an escape, an
  anchor, a counted, lazy or possessive repetition, a group extension) is \<open>Unsupported\<close>:
  the model says nothing about it. The interpreter's resource limits are not modelled.
\<close>

datatype regex =
    Empty
  | Literal char
  | AnyChar
  | In bool "(char \<times> char) list"
  | Group regex
  | Seq regex regex
  | Branch regex regex
  | Opt regex
  | Star regex
  | Plus regex

text \<open>
  The outcome of compiling a pattern: a compiled expression, \<open>re.error\<close> with its message
  (without the position the library appends), or a pattern outside the dialect.
\<close>

datatype compiled = Compiled regex | Invalid string | Unsupported

text \<open>
  While a pattern is read, a frame holds the finished alternatives of the group being read
  and the items of its current alternative, both latest first.
\<close>

type_synonym frame = "regex list \<times> regex list"

definition build :: "regex list \<Rightarrow> regex list \<Rightarrow> regex" where
  "build alts items =
     foldl (\<lambda>acc a. Branch a acc) (foldl (\<lambda>acc item. Seq item acc) Empty items) alts"

definition is_repeat :: "regex \<Rightarrow> bool" where
  "is_repeat r = (case r of Opt _ \<Rightarrow> True | Star _ \<Rightarrow> True | Plus _ \<Rightarrow> True | _ \<Rightarrow> False)"

definition repeat_of :: "char \<Rightarrow> regex \<Rightarrow> regex" where
  "repeat_of c item =
     (if c = CHR ''*'' then Star item else if c = CHR ''+'' then Plus item else Opt item)"

text \<open>
  The parser reads the pattern from left to right and stops at the first error, as the
  library's parser does. \<open>parse\<close> reads items, \<open>parse_set\<close> the inside of a character
  set. In a set a \<open>]\<close> closes it only after at least one item, and \<open>a-b\<close> is a range unless
  the \<open>-\<close> is the last character before the closing \<open>]\<close>.
\<close>

fun parse :: "frame \<Rightarrow> frame list \<Rightarrow> string \<Rightarrow> compiled"
  and parse_set :: "frame \<Rightarrow> frame list \<Rightarrow> bool \<Rightarrow> (char \<times> char) list \<Rightarrow> string \<Rightarrow> compiled"
where
  "parse (alts, items) stack [] =
     (if stack = [] then Compiled (build alts items)
      else Invalid ''missing ), unterminated subpattern'')"
| "parse (alts, items) stack (c # cs) =
     (if c = CHR 0x5C \<or> c = CHR ''{'' \<or> c = CHR ''^'' \<or> c = CHR ''$'' then Unsupported
      else if c = CHR ''('' then
        (case cs of
           [] \<Rightarrow> parse ([], []) ((alts, items) # stack) cs
         | d # _ \<Rightarrow>
             if d = CHR ''?'' then Unsupported
             else parse ([], []) ((alts, items) # stack) cs)
      else if c = CHR '')'' then
        (case stack of
           [] \<Rightarrow> Invalid ''unbalanced parenthesis''
         | (palts, pitems) # stack' \<Rightarrow>
             parse (palts, Group (build alts items) # pitems) stack' cs)
      else if c = CHR ''|'' then parse (build [] items # alts, []) stack cs
      else if c = CHR ''*'' \<or> c = CHR ''+'' \<or> c = CHR ''?'' then
        (case items of
           [] \<Rightarrow> Invalid ''nothing to repeat''
         | item # items' \<Rightarrow>
             if is_repeat item then Invalid ''multiple repeat''
             else
               (case cs of
                  [] \<Rightarrow> parse (alts, repeat_of c item # items') stack cs
                | d # _ \<Rightarrow>
                    if d = CHR ''?'' \<or> d = CHR ''+'' then Unsupported
                    else parse (alts, repeat_of c item # items') stack cs))
      else if c = CHR ''.'' then parse (alts, AnyChar # items) stack cs
      else if c = CHR ''['' then
        (case cs of
           [] \<Rightarrow> parse_set (alts, items) stack False [] cs
         | d # cs' \<Rightarrow>
             if d = CHR ''^'' then parse_set (alts, items) stack True [] cs'
             else parse_set (alts, items) stack False [] cs)
      else parse (alts, Literal c # items) stack cs)"
| "parse_set (alts, items) stack negate its [] = Invalid ''unterminated character set''"
| "parse_set (alts, items) stack negate its (c # cs) =
     (if c = CHR '']'' \<and> its \<noteq> [] then parse (alts, In negate its # items) stack cs
      else if c = CHR 0x5C then Unsupported
      else
        (case cs of
           [] \<Rightarrow> parse_set (alts, items) stack negate (its @ [(c, c)]) cs
         | d # cs' \<Rightarrow>
             if d = CHR ''-'' then
               (case cs' of
                  [] \<Rightarrow> Invalid ''unterminated character set''
                | e # cs'' \<Rightarrow>
                    if e = CHR '']'' then
                      parse (alts, In negate (its @ [(c, c), (d, d)]) # items) stack cs''
                    else if e = CHR 0x5C then Unsupported
                    else if (of_char e :: nat) < of_char c then Invalid ''bad character range''
                    else parse_set (alts, items) stack negate (its @ [(c, e)]) cs'')
             else parse_set (alts, items) stack negate (its @ [(c, c)]) cs))"

definition re_compile :: "string \<Rightarrow> compiled" where
  "re_compile pattern = parse ([], []) [] pattern"

subsection \<open>Matching\<close>

text \<open>
  The engine backtracks. \<open>ends r s i\<close> lists the positions where a match of \<open>r\<close> that
  starts at \<open>i\<close> can end, in the order in which the engine tries them: the first
  alternative before the second, one more repetition before fewer. A repetition whose body
  matched the empty string is not repeated again from the same position.
\<close>

definition in_set :: "(char \<times> char) list \<Rightarrow> char \<Rightarrow> bool" where
  "in_set its x =
     list_ex (\<lambda>(lo, hi). (of_char lo :: nat) \<le> of_char x \<and> (of_char x :: nat) \<le> of_char hi) its"

function star_ends :: "(nat \<Rightarrow> nat list) \<Rightarrow> nat \<Rightarrow> nat \<Rightarrow> nat list" where
  "star_ends f n i =
     concat (map (\<lambda>e. if i < e \<and> e \<le> n then star_ends f n e else [i]) (f i)) @ [i]"
  by pat_completeness auto
termination
  by (relation "measure (\<lambda>(f, n, i). n - i)") auto

declare star_ends.simps [simp del]

primrec ends :: "regex \<Rightarrow> string \<Rightarrow> nat \<Rightarrow> nat list" where
  "ends Empty s i = [i]"
| "ends (Literal c) s i = (if i < length s \<and> s ! i = c then [Suc i] else [])"
| "ends AnyChar s i = (if i < length s \<and> s ! i \<noteq> CHR 0x0A then [Suc i] else [])"
| "ends (In negate its) s i =
     (if i < length s \<and> in_set its (s ! i) \<noteq> negate then [Suc i] else [])"
| "ends (Group r) s i = ends r s i"
| "ends (Seq a b) s i = concat (map (ends b s) (ends a s i))"
| "ends (Branch a b) s i = ends a s i @ ends b s i"
| "ends (Opt r) s i = ends r s i @ [i]"
| "ends (Star r) s i = star_ends (ends r s) (length s) i"
| "ends (Plus r) s i = concat (map (star_ends (ends r s) (length s)) (ends r s i))"

text \<open>
  One search of the scanner: the leftmost position from \<open>ptr\<close> on at which the pattern
  matches, with the first end the engine accepts there. When \<open>must_advance\<close> is set (the
  previous match was empty), an empty match at \<open>ptr\<close> itself is refused; the flag is
  dropped for the later positions.
\<close>

function sre_search :: "regex \<Rightarrow> string \<Rightarrow> nat \<Rightarrow> bool \<Rightarrow> (nat \<times> nat) option" where
  "sre_search r s ptr must_advance =
     (if length s < ptr then None
      else
        (case find (\<lambda>e. \<not> (must_advance \<and> e = ptr)) (ends r s ptr) of
           Some e \<Rightarrow> Some (ptr, e)
         | None \<Rightarrow> if ptr < length s then sre_search r s (Suc ptr) False else None))"
  by pat_completeness auto
termination
  by (relation "measure (\<lambda>(r, s, ptr, must_advance). length s - ptr)") auto

declare sre_search.simps [simp del]

text \<open>
  The iteration of \<open>re.finditer\<close>: search, report the span, go on from its end, and set
  \<open>must_advance\<close> when the span was empty. Nothing in the definition bounds the number of
  rounds, so the loop is a partial function: \<open>None\<close> is a scan that never ends.
\<close>

partial_function (option) scanner_loop ::
  "regex \<Rightarrow> string \<Rightarrow> nat \<Rightarrow> bool \<Rightarrow> (nat \<times> nat) list \<Rightarrow> (nat \<times> nat) list option" where
  "scanner_loop r s start must_advance acc =
     (case sre_search r s start must_advance of
        None \<Rightarrow> Some acc
      | Some m \<Rightarrow> scanner_loop r s (snd m) (snd m = fst m) (acc @ [m]))"

declare scanner_loop.simps [code]

definition re_finditer :: "string \<Rightarrow> string \<Rightarrow> (nat \<times> nat) list outcome option" where
  "re_finditer pattern string =
     (case re_compile pattern of
        Unsupported \<Rightarrow> Some Unmodelled
      | Invalid msg \<Rightarrow> Some (Raises (ReError msg))
      | Compiled r \<Rightarrow> map_option Returns (scanner_loop r string 0 False []))"

subsection \<open>\<open>find_patterns_regex\<close>\<close>

text \<open>
  A match record is the dictionary with the keys \<open>'start'\<close>, \<open>'end'\<close> and
  \<open>'matched_sequence'\<close>; \<open>match.group(0)\<close> is the slice of the sequence between the two
  offsets.
\<close>

record match_record =
  m_start :: nat
  m_end :: nat
  matched_sequence :: string

definition match_dict :: "string \<Rightarrow> nat \<times> nat \<Rightarrow> match_record" where
  "match_dict sequence m =
     \<lparr>m_start = fst m, m_end = snd m,
      matched_sequence = take (snd m - fst m) (drop (fst m) sequence)\<rparr>"

text \<open>
  The \<open>try\<close> block catches \<open>re.error\<close> only and the function then returns the list built
  so far, which is empty since the pattern is compiled before the first match; any other
  exception would propagate. The diagnostic goes to standard output and is no part of the
  returned value.
\<close>

definition find_patterns_regex :: "string \<Rightarrow> string \<Rightarrow> match_record list outcome option" where
  "find_patterns_regex sequence regex_pattern =
     (case re_finditer regex_pattern sequence of
        None \<Rightarrow> None
      | Some Unmodelled \<Rightarrow> Some Unmodelled
      | Some (Raises (ReError msg)) \<Rightarrow> Some (Returns [])
      | Some (Raises e) \<Rightarrow> Some (Raises e)
      | Some (Returns spans) \<Rightarrow> Some (Returns (map (match_dict sequence) spans)))"

subsection \<open>What the specification says of a scan\<close>

text \<open>
  The end the engine accepts for an attempt at position \<open>p\<close>, in a search that began at
  \<open>start\<close>: the first candidate, where an empty match at \<open>start\<close> itself does not count
  when \<open>must_advance\<close> is set.
\<close>

definition admissible :: "regex \<Rightarrow> string \<Rightarrow> nat \<Rightarrow> bool \<Rightarrow> nat \<Rightarrow> nat option" where
  "admissible r s start must_advance p =
     find (\<lambda>e. \<not> (must_advance \<and> p = start \<and> e = p)) (ends r s p)"

text \<open>
  A list of match records is the scan of \<open>s\<close> from \<open>start\<close> on when each record is the
  leftmost match from the end of the one before it, with the span the engine accepts there
  and the text between its offsets, and when no further match follows the last record.
\<close>

fun scan_from :: "regex \<Rightarrow> string \<Rightarrow> nat \<Rightarrow> bool \<Rightarrow> match_record list \<Rightarrow> bool" where
  "scan_from r s start must_advance [] =
     list_all (\<lambda>p. admissible r s start must_advance p = None) [start..<Suc (length s)]"
| "scan_from r s start must_advance (m # ms) =
     (start \<le> m_start m \<and> m_start m \<le> length s
      \<and> list_all (\<lambda>p. admissible r s start must_advance p = None) [start..<m_start m]
      \<and> admissible r s start must_advance (m_start m) = Some (m_end m)
      \<and> matched_sequence m = take (m_end m - m_start m) (drop (m_start m) s)
      \<and> scan_from r s (m_end m) (m_end m = m_start m) ms)"

text \<open>
  Successive records do not overlap, and their starts increase, except that a non-empty
  match may start where the empty match before it stands.
\<close>

fun ordered_spans :: "match_record list \<Rightarrow> bool" where
  "ordered_spans (m1 # m2 # ms) =
     (m_end m1 \<le> m_start m2
      \<and> (m_start m1 < m_start m2 \<or> m_start m1 = m_end m1 \<and> m_end m1 < m_end m2)
      \<and> ordered_spans (m2 # ms))"
| "ordered_spans ms = True"

text \<open>
  After a zero-width match, the next match ends beyond it: the same empty span is never
  reported again.
\<close>

fun progresses_after_zero_width :: "match_record list \<Rightarrow> bool" where
  "progresses_after_zero_width (m1 # m2 # ms) =
     ((m_start m1 = m_end m1 \<longrightarrow> m_end m1 < m_end m2) \<and> progresses_after_zero_width (m2 # ms))"
| "progresses_after_zero_width ms = True"

text \<open>
  The specification's wording of the policy, that after a zero-width match the scan
  position advances by at least one before the next attempt: the next match starts beyond
  the zero-width one.
\<close>

fun advances_after_zero_width :: "match_record list \<Rightarrow> bool" where
  "advances_after_zero_width (m1 # m2 # ms) =
     ((m_start m1 = m_end m1 \<longrightarrow> m_end m1 < m_start m2) \<and> advances_after_zero_width (m2 # ms))"
| "advances_after_zero_width ms = True"

section \<open>Persistence (scripts/main\_analyzer.py, app.py)\<close>

subsection \<open>The database and its transactions\<close>

text \<open>
  The tables the analysis reads and writes: \<open>genomes\<close> from \<open>genome_id\<close> to the sequence,
  \<open>patterns\<close> as rows \<open>(pattern_id, regex_pattern, pattern_name)\<close>, and the rows of
  \<open>mutations\<close> and \<open>search_results\<close> in the order of their insertion, with the columns of
  the two \<open>INSERT\<close> statements.
\<close>

type_synonym mutation_row = "int \<times> mutation_type \<times> nat \<times> string \<times> string"
type_synonym search_result_row = "int \<times> int \<times> nat \<times> nat \<times> string"
type_synonym pattern_row = "int \<times> string \<times> string"

record tables =
  genomes :: "int \<Rightarrow> string option"
  patterns :: "pattern_row list"
  mutations :: "mutation_row list"
  search_results :: "search_result_row list"

text \<open>
  A connection of the pool, with the driver's default of no autocommit: statements work on
  the state of the open transaction, \<open>commit\<close> makes that state the persisted one and
  \<open>rollback\<close> drops it. Handing a connection back to the pool rolls back whatever
  transaction is still open; what remains is the persisted state. The pool is taken to be
  initialised.
\<close>

record connection =
  committed :: tables
  working :: tables

definition get_connection :: "tables \<Rightarrow> connection" where
  "get_connection db = \<lparr>committed = db, working = db\<rparr>"

definition commit :: "connection \<Rightarrow> connection" where
  "commit conn = conn\<lparr>committed := working conn\<rparr>"

definition rollback :: "connection \<Rightarrow> connection" where
  "rollback conn = conn\<lparr>working := committed conn\<rparr>"

definition release_connection :: "connection \<Rightarrow> tables" where
  "release_connection conn = committed (rollback conn)"

text \<open>
  \<open>SELECT sequence FROM genomes WHERE genome_id = %s\<close> followed by \<open>fetchone()\<close>: the
  row, or \<open>None\<close> for an unknown id.
\<close>

definition fetch_sequence :: "connection \<Rightarrow> int \<Rightarrow> string option" where
  "fetch_sequence conn genome_id = genomes (working conn) genome_id"

text \<open>
  One \<open>INSERT\<close>. Whether the database takes a row (its constraints, seen against the state
  of the transaction) is not in the repository and is a parameter. A rejected row raises
  and leaves the earlier rows of the transaction in place until the rollback.
\<close>

definition insert_mutation ::
  "(tables \<Rightarrow> mutation_row \<Rightarrow> bool) \<Rightarrow> connection \<Rightarrow> mutation_row
   \<Rightarrow> connection \<times> py_exception option" where
  "insert_mutation accepts conn row =
     (if accepts (working conn) row then
        (conn\<lparr>working := (working conn)\<lparr>mutations := mutations (working conn) @ [row]\<rparr>\<rparr>,
         None)
      else (conn, Some DatabaseError))"

definition insert_search_result ::
  "(tables \<Rightarrow> search_result_row \<Rightarrow> bool) \<Rightarrow> connection \<Rightarrow> search_result_row
   \<Rightarrow> connection \<times> py_exception option" where
  "insert_search_result accepts conn row =
     (if accepts (working conn) row then
        (conn\<lparr>working :=
           (working conn)\<lparr>search_results := search_results (working conn) @ [row]\<rparr>\<rparr>,
         None)
      else (conn, Some DatabaseError))"

text \<open>
  \<open>execute_batch\<close> of the driver sends the statements in pages; they run in the order of
  the list and the first rejected one raises.
\<close>

fun execute_batch ::
  "(tables \<Rightarrow> mutation_row \<Rightarrow> bool) \<Rightarrow> connection \<Rightarrow> mutation_row list
   \<Rightarrow> connection \<times> py_exception option" where
  "execute_batch accepts conn [] = (conn, None)"
| "execute_batch accepts conn (row # rows) =
     (case insert_mutation accepts conn row of
        (conn', Some e) \<Rightarrow> (conn', Some e)
      | (conn', None) \<Rightarrow> execute_batch accepts conn' rows)"

text \<open>What an operation prints when it ends, which is all its caller learns.\<close>

datatype report = Completed | NoMutationsFound | GenomeNotFound | Failed py_exception

subsection \<open>\<open>compare_and_log_mutations\<close> and the logging block of app.py\<close>

definition mutations_to_log :: "int \<Rightarrow> mutation list \<Rightarrow> mutation_row list" where
  "mutations_to_log comp_genome_id ms =
     map (\<lambda>m. (comp_genome_id, mtype m, position m, original m, mutated m)) ms"

text \<open>
  \<open>cur.fetchone()[0]\<close> on the \<open>None\<close> of an unknown id raises \<open>TypeError\<close>, which the
  \<open>except Exception\<close> of the function catches like any other failure.
\<close>

definition compare_and_log_mutations ::
  "(tables \<Rightarrow> mutation_row \<Rightarrow> bool) \<Rightarrow> tables \<Rightarrow> int \<Rightarrow> int \<Rightarrow> tables \<times> report" where
  "compare_and_log_mutations accepts db ref_genome_id comp_genome_id =
     (let conn = get_connection db in
      case fetch_sequence conn ref_genome_id of
        None \<Rightarrow> (release_connection (rollback conn), Failed TypeError)
      | Some ref_sequence \<Rightarrow>
          (case fetch_sequence conn comp_genome_id of
             None \<Rightarrow> (release_connection (rollback conn), Failed TypeError)
           | Some comp_sequence \<Rightarrow>
               (let ms = detect_mutations_simple ref_sequence comp_sequence in
                if ms = [] then (release_connection conn, NoMutationsFound)
                else
                  (case execute_batch accepts conn (mutations_to_log comp_genome_id ms) of
                     (conn', Some e) \<Rightarrow> (release_connection (rollback conn'), Failed e)
                   | (conn', None) \<Rightarrow> (release_connection (commit conn'), Completed)))))"

text \<open>
  The block behind the button "Log these variations to the database" of app.py, from the
  id and the variations saved in the session state.
\<close>

definition log_variations ::
  "(tables \<Rightarrow> mutation_row \<Rightarrow> bool) \<Rightarrow> tables \<Rightarrow> int \<Rightarrow> mutation list \<Rightarrow> tables \<times> report" where
  "log_variations accepts db comp_genome_id variations =
     (let conn = get_connection db in
      case execute_batch accepts conn (mutations_to_log comp_genome_id variations) of
        (conn', Some e) \<Rightarrow> (release_connection (rollback conn'), Failed e)
      | (conn', None) \<Rightarrow> (release_connection (commit conn'), Completed))"

subsection \<open>\<open>search_and_log_patterns\<close>\<close>

fun log_matches ::
  "(tables \<Rightarrow> search_result_row \<Rightarrow> bool) \<Rightarrow> connection \<Rightarrow> int \<Rightarrow> int \<Rightarrow> match_record list
   \<Rightarrow> connection \<times> py_exception option" where
  "log_matches accepts conn genome_id pattern_id [] = (conn, None)"
| "log_matches accepts conn genome_id pattern_id (m # ms) =
     (case insert_search_result accepts conn
             (genome_id, pattern_id, m_start m, m_end m, matched_sequence m) of
        (conn', Some e) \<Rightarrow> (conn', Some e)
      | (conn', None) \<Rightarrow> log_matches accepts conn' genome_id pattern_id ms)"

fun search_patterns_loop ::
  "(tables \<Rightarrow> search_result_row \<Rightarrow> bool) \<Rightarrow> connection \<Rightarrow> int \<Rightarrow> string \<Rightarrow> pattern_row list
   \<Rightarrow> (connection \<times> py_exception option) outcome option" where
  "search_patterns_loop accepts conn genome_id sequence [] = Some (Returns (conn, None))"
| "search_patterns_loop accepts conn genome_id sequence (p # ps) =
     (case find_patterns_regex sequence (fst (snd p)) of
        None \<Rightarrow> None
      | Some Unmodelled \<Rightarrow> Some Unmodelled
      | Some (Raises e) \<Rightarrow> Some (Returns (conn, Some e))
      | Some (Returns matches) \<Rightarrow>
          if matches \<noteq> [] then
            (case log_matches accepts conn genome_id (fst p) matches of
               (conn', Some e) \<Rightarrow> Some (Returns (conn', Some e))
             | (conn', None) \<Rightarrow> search_patterns_loop accepts conn' genome_id sequence ps)
          else search_patterns_loop accepts conn genome_id sequence ps)"

definition search_and_log_patterns ::
  "(tables \<Rightarrow> search_result_row \<Rightarrow> bool) \<Rightarrow> tables \<Rightarrow> int \<Rightarrow> (tables \<times> report) outcome option"
  where
  "search_and_log_patterns accepts db genome_id_to_search =
     (let conn = get_connection db in
      case fetch_sequence conn genome_id_to_search of
        None \<Rightarrow> Some (Returns (release_connection conn, GenomeNotFound))
      | Some sequence \<Rightarrow>
          (case search_patterns_loop accepts conn genome_id_to_search sequence
                  (patterns (working conn)) of
             None \<Rightarrow> None
           | Some Unmodelled \<Rightarrow> Some Unmodelled
           | Some (Raises e) \<Rightarrow> Some (Raises e)
           | Some (Returns (conn', Some e)) \<Rightarrow>
               Some (Returns (release_connection (rollback conn'), Failed e))
           | Some (Returns (conn', None)) \<Rightarrow>
               Some (Returns (release_connection (commit conn'), Completed))))"

text \<open>
  The specification's condition that no row of a batch is rejected: each row is accepted
  against the table as the rows before it have left it.
\<close>

fun batch_accepted :: "(tables \<Rightarrow> mutation_row \<Rightarrow> bool) \<Rightarrow> tables \<Rightarrow> mutation_row list \<Rightarrow> bool"
  where
  "batch_accepted accepts t [] = True"
| "batch_accepted accepts t (row # rows) =
     (accepts t row \<and> batch_accepted accepts (t\<lparr>mutations := mutations t @ [row]\<rparr>) rows)"


section \<open>Properties of the float arithmetic\<close>

lemma bit_length_bounds:
  "0 < n \<Longrightarrow> 2 ^ (bit_length n - 1) \<le> n \<and> n < 2 ^ bit_length n"
proof (induction n rule: bit_length.induct)
  case (1 n)
  from "1.prems" have nz: "\<not> n \<le> 0" by simp
  have bl: "bit_length n = Suc (bit_length (n div 2))"
    using nz by (subst bit_length.simps) simp
  show ?case
  proof (cases "n div 2 = 0")
    case True
    with "1.prems" have n1: "n = 1" by presburger
    have "bit_length (0::int) = 0" by (subst bit_length.simps) simp
    with bl True n1 show ?thesis by simp
  next
    case False
    with "1.prems" have pos: "0 < n div 2" by presburger
    from "1.IH" [OF nz pos]
    have ih: "2 ^ (bit_length (n div 2) - 1) \<le> n div 2" "n div 2 < 2 ^ bit_length (n div 2)"
      by auto
    from pos have lpos: "0 < bit_length (n div 2)"
      by (subst bit_length.simps) simp
    then have ex: "bit_length (n div 2) = Suc (bit_length (n div 2) - 1)" by simp
    have "(2::int) ^ bit_length (n div 2) = 2 * 2 ^ (bit_length (n div 2) - 1)"
      by (subst ex) simp
    also have "\<dots> \<le> 2 * (n div 2)" using ih(1) by simp
    also have "\<dots> \<le> n" by presburger
    finally have lo: "2 ^ (bit_length n - 1) \<le> n" by (simp add: bl)
    from ih(2) have "n div 2 + 1 \<le> 2 ^ bit_length (n div 2)" by simp
    then have "2 * (n div 2) + 2 \<le> 2 * 2 ^ bit_length (n div 2)" by simp
    moreover have "n < 2 * (n div 2) + 2" by presburger
    ultimately have "n < 2 * 2 ^ bit_length (n div 2)" by linarith
    then have hi: "n < 2 ^ bit_length n" by (simp add: bl)
    from lo hi show ?thesis ..
  qed
qed

lemma pow2_bit_length:
  assumes "0 < (n::int)"
  shows "(2::rat) powi (int (bit_length n) - 1) \<le> of_int n" "of_int n < (2::rat) powi int (bit_length n)"
proof -
  from assms have pos: "0 < bit_length n" by (subst bit_length.simps) simp
  from bit_length_bounds [OF assms]
  have b: "2 ^ (bit_length n - 1) \<le> n" "n < 2 ^ bit_length n" by auto
  from pos have "int (bit_length n) - 1 = int (bit_length n - 1)" by simp
  then have "(2::rat) powi (int (bit_length n) - 1) = 2 ^ (bit_length n - 1)"
    by (simp only: power_int_of_nat)
  also have "\<dots> = of_int (2 ^ (bit_length n - 1))" by simp
  also from b(1) have "\<dots> \<le> of_int n" by (simp only: of_int_le_iff)
  finally show "(2::rat) powi (int (bit_length n) - 1) \<le> of_int n" .
  have "(of_int n :: rat) < of_int (2 ^ bit_length n)" using b(2) by (simp only: of_int_less_iff)
  also have "\<dots> = 2 powi int (bit_length n)" by simp
  finally show "of_int n < (2::rat) powi int (bit_length n)" .
qed

lemma float_exponent_bounds:
  assumes "0 < q"
  shows "2 powi float_exponent q \<le> q" and "q < 2 powi (float_exponent q + 1)"
proof -
  obtain a b where qo: "quotient_of q = (a, b)" by (cases "quotient_of q")
  then have bpos: "0 < b" and q: "q = of_int a / of_int b"
    by (auto simp: quotient_of_denom_pos quotient_of_div)
  from assms q bpos have apos: "0 < a" by (simp add: zero_less_divide_iff)
  define e0 where "e0 = int (bit_length a) - int (bit_length b)"
  note a = pow2_bit_length [OF apos] and b = pow2_bit_length [OF bpos]
  have Bp: "(0::rat) < of_int b" using bpos by simp
  have p: "(0::rat) < 2 powi k" for k by (simp add: zero_less_power_int)
  have eqA: "int (bit_length a) = (e0 + 1) + (int (bit_length b) - 1)"
    and eqA': "int (bit_length a) - 1 = (e0 - 1) + int (bit_length b)"
    by (simp_all add: e0_def)
  have s1: "(2::rat) powi int (bit_length a) = 2 powi (e0 + 1) * 2 powi (int (bit_length b) - 1)"
    unfolding eqA by (rule power_int_add) simp
  have s2: "(2::rat) powi (e0 - 1) * 2 powi int (bit_length b) = 2 powi (int (bit_length a) - 1)"
    unfolding eqA' by (rule power_int_add [symmetric]) simp
  have up: "q < 2 powi (e0 + 1)"
  proof -
    have "(of_int a :: rat) < 2 powi int (bit_length a)" by (rule a(2))
    also note s1
    also have "2 powi (e0 + 1) * 2 powi (int (bit_length b) - 1) \<le> 2 powi (e0 + 1) * (of_int b :: rat)"
      using b(1) p [of "e0 + 1"] by (intro mult_left_mono) (auto simp: less_imp_le)
    finally show ?thesis using Bp by (simp add: q pos_divide_less_eq)
  qed
  have lo: "2 powi (e0 - 1) < q"
  proof -
    have "2 powi (e0 - 1) * (of_int b :: rat) < 2 powi (e0 - 1) * 2 powi int (bit_length b)"
      using b(2) p [of "e0 - 1"] by (intro mult_strict_left_mono)
    also note s2
    also have "(2::rat) powi (int (bit_length a) - 1) \<le> of_int a" by (rule a(1))
    finally show ?thesis using Bp by (simp add: q pos_less_divide_eq)
  qed
  have fe: "float_exponent q = (if 2 powi e0 \<le> q then e0 else e0 - 1)"
    by (simp add: float_exponent_def qo e0_def Let_def)
  show "2 powi float_exponent q \<le> q" using lo by (simp add: fe less_imp_le)
  show "q < 2 powi (float_exponent q + 1)" using up by (simp add: fe not_le)
qed

lemma round_half_even_near: "\<bar>of_int (round_half_even x) - x\<bar> \<le> 1 / 2"
proof -
  have a: "of_int \<lfloor>x\<rfloor> \<le> x" by simp
  have b: "x < of_int \<lfloor>x\<rfloor> + 1" by linarith
  have "round_half_even x = \<lfloor>x\<rfloor> \<and> x - of_int \<lfloor>x\<rfloor> \<le> 1 / 2
      \<or> round_half_even x = \<lfloor>x\<rfloor> + 1 \<and> 1 / 2 \<le> x - of_int \<lfloor>x\<rfloor>"
    unfolding round_half_even_def Let_def by auto
  then show ?thesis
  proof
    assume h: "round_half_even x = \<lfloor>x\<rfloor> \<and> x - of_int \<lfloor>x\<rfloor> \<le> 1 / 2"
    then have "of_int (round_half_even x) = (of_int \<lfloor>x\<rfloor> :: rat)" by simp
    with h a show ?thesis by linarith
  next
    assume h: "round_half_even x = \<lfloor>x\<rfloor> + 1 \<and> 1 / 2 \<le> x - of_int \<lfloor>x\<rfloor>"
    then have "of_int (round_half_even x) = (of_int \<lfloor>x\<rfloor> :: rat) + 1" by simp
    with h b show ?thesis by linarith
  qed
qed

lemma binary64_error:
  assumes "0 < q"
  shows "\<bar>binary64 q - q\<bar> \<le> q / 2 ^ 53"
proof -
  define e where "e = float_exponent q"
  define ulp :: rat where "ulp = 2 powi (e - 52)"
  have up: "0 < ulp" by (simp add: ulp_def zero_less_power_int)
  from assms have b: "binary64 q = of_int (round_half_even (q / ulp)) * ulp"
    by (simp add: binary64_def ulp_def e_def Let_def)
  have "binary64 q - q = (of_int (round_half_even (q / ulp)) - q / ulp) * ulp"
    using up by (simp add: b field_simps)
  then have "\<bar>binary64 q - q\<bar> = \<bar>of_int (round_half_even (q / ulp)) - q / ulp\<bar> * ulp"
    using up by (simp add: abs_mult)
  also have "\<dots> \<le> 1 / 2 * ulp"
    using round_half_even_near [of "q / ulp"] up by (simp add: mult_right_mono less_imp_le)
  also have "\<dots> = 2 powi e / 2 ^ 53"
    by (simp add: ulp_def power_int_diff)
  also have "\<dots> \<le> q / 2 ^ 53"
    using float_exponent_bounds(1) [OF assms] by (simp add: e_def divide_right_mono)
  finally show ?thesis .
qed

lemma binary64_zero: "binary64 0 = 0"
  by (simp add: binary64_def)

lemma binary64_pos:
  assumes "0 < q" shows "0 < binary64 q"
proof -
  have "q / 2 ^ 53 < q" using assms by (simp add: field_simps)
  with binary64_error [OF assms] show ?thesis by linarith
qed

lemma abs_scale_100: "\<bar>a * 100 - b * 100\<bar> = \<bar>a - b\<bar> * (100::rat)"
proof -
  have "\<bar>(a - b) * 100\<bar> = \<bar>a - b\<bar> * \<bar>100::rat\<bar>" by (rule abs_mult)
  then show ?thesis by (simp only: left_diff_distrib abs_numeral)
qed

lemma percent_error:
  assumes "0 < t"
  shows "\<bar>binary64 (binary64 t * 100) - t * 100\<bar> \<le> t * 100 * (3 / 2 ^ 53)"
proof -
  define u :: rat where "u = 1 / 2 ^ 53"
  have u: "0 < u" "u \<le> 1" by (simp_all add: u_def)
  define t1 where "t1 = binary64 t"
  have e1: "\<bar>t1 - t\<bar> \<le> t * u"
    using binary64_error [OF assms] by (simp add: t1_def u_def)
  have t1pos: "0 < t1" unfolding t1_def by (rule binary64_pos [OF assms])
  then have "0 < t1 * 100" by simp
  from binary64_error [OF this] have e2: "\<bar>binary64 (t1 * 100) - t1 * 100\<bar> \<le> t1 * 100 * u"
    by (simp add: u_def)
  from e1 have "t1 \<le> t + t * u" by linarith
  also have "\<dots> \<le> t + t * 1" using assms u by (intro add_left_mono mult_left_mono) auto
  finally have t1le: "t1 \<le> 2 * t" by simp
  have "t1 * 100 * u \<le> (2 * t) * 100 * u"
    using t1le u by (intro mult_right_mono) auto
  with e2 have e3: "\<bar>binary64 (t1 * 100) - t1 * 100\<bar> \<le> t * 200 * u" by simp
  have "\<bar>binary64 (t1 * 100) - t * 100\<bar>
        \<le> \<bar>binary64 (t1 * 100) - t1 * 100\<bar> + \<bar>t1 * 100 - t * 100\<bar>" by linarith
  also have "\<bar>t1 * 100 - t * 100\<bar> = \<bar>t1 - t\<bar> * 100"
    by (rule abs_scale_100)
  also have "\<bar>binary64 (t1 * 100) - t1 * 100\<bar> + \<bar>t1 - t\<bar> * 100 \<le> t * 200 * u + t * u * 100"
  proof (rule add_mono)
    show "\<bar>binary64 (t1 * 100) - t1 * 100\<bar> \<le> t * 200 * u" by (rule e3)
    show "\<bar>t1 - t\<bar> * 100 \<le> t * u * 100" using e1 by (intro mult_right_mono) auto
  qed
  finally show ?thesis by (simp add: t1_def u_def field_simps)
qed

lemma hundredth_nearest:
  assumes n: "0 < n" "n < 2 ^ 37" and c: "c \<le> n"
  shows "\<bar>of_int (round_half_even (binary64 (binary64 (of_nat c / of_nat n) * 100) * 100)) / 100
          - of_nat c / of_nat n * 100\<bar> \<le> (1 / 200 :: rat)"
proof (cases "c = 0")
  case True
  then show ?thesis by (simp add: binary64_zero round_half_even_def)
next
  case False
  define t :: rat where "t = of_nat c / of_nat n"
  define x where "x = binary64 (binary64 t * 100)"
  define k where "k = round_half_even (x * 100)"
  define D where "D = 2 * int n * k - 20000 * int c"
  from False n have tpos: "0 < t" by (simp add: t_def)
  from c n have tle: "t \<le> 1" by (simp add: t_def)
  have npos: "(0::rat) < of_nat n" using n by simp
  from percent_error [OF tpos] have "\<bar>x - t * 100\<bar> \<le> t * 100 * (3 / 2 ^ 53)" by (simp add: x_def)
  also have "\<dots> \<le> 1 * 100 * (3 / 2 ^ 53)" using tle by (intro mult_right_mono) auto
  finally have ex: "\<bar>x - t * 100\<bar> \<le> 300 / 2 ^ 53" by simp
  have ek: "\<bar>of_int k - x * 100\<bar> \<le> 1 / 2" unfolding k_def by (rule round_half_even_near)
  have "\<bar>x * 100 - t * 100 * 100\<bar> = \<bar>x - t * 100\<bar> * 100" by (rule abs_scale_100)
  then have "\<bar>of_int k - t * 10000\<bar> \<le> \<bar>of_int k - x * 100\<bar> + \<bar>x - t * 100\<bar> * 100"
    by linarith
  with ek ex have eky: "\<bar>of_int k - t * 10000\<bar> \<le> 1 / 2 + 30000 / 2 ^ 53" by linarith
  have Dq: "(of_int D :: rat) = 2 * of_nat n * (of_int k - t * 10000)"
    using npos by (simp add: D_def t_def field_simps)
  have "\<bar>of_int D :: rat\<bar> = 2 * of_nat n * \<bar>of_int k - t * 10000\<bar>"
    using npos by (simp add: Dq abs_mult)
  also have "\<dots> \<le> 2 * of_nat n * (1 / 2 + 30000 / 2 ^ 53)"
    using eky npos by (intro mult_left_mono) auto
  also have "\<dots> = of_nat n + of_nat n * (60000 / 2 ^ 53)" by (simp add: field_simps)
  also have "of_nat n * (60000 / 2 ^ 53) < (2 ^ 37 :: rat) * (60000 / 2 ^ 53)"
  proof -
    from n(2) have "(of_nat n :: rat) < of_nat (2 ^ 37)" by (simp only: of_nat_less_iff)
    then have "(of_nat n :: rat) < 2 ^ 37" by simp
    then show ?thesis by (intro mult_strict_right_mono) auto
  qed
  also have "(2 ^ 37 :: rat) * (60000 / 2 ^ 53) < 1" by simp
  finally have "\<bar>of_int D :: rat\<bar> < of_nat n + 1" by simp
  then have "\<bar>of_int D :: rat\<bar> < of_int (int n + 1)" by simp
  then have "(of_int \<bar>D\<bar> :: rat) < of_int (int n + 1)" by simp
  then have "\<bar>D\<bar> < int n + 1" by (simp only: of_int_less_iff)
  then have "\<bar>D\<bar> \<le> int n" by simp
  then have "(of_int \<bar>D\<bar> :: rat) \<le> of_int (int n)" by (simp only: of_int_le_iff)
  then have "\<bar>of_int D :: rat\<bar> \<le> of_nat n" by simp
  then have "2 * of_nat n * \<bar>of_int k - t * 10000\<bar> \<le> (of_nat n :: rat)"
    using npos by (simp add: Dq abs_mult)
  then have "\<bar>of_int k - t * 10000\<bar> \<le> 1 / 2" using npos by (simp add: field_simps)
  then have "\<bar>of_int k / 100 - t * 100\<bar> \<le> 1 / 200" by linarith
  then show ?thesis by (simp add: k_def x_def t_def)
qed

section \<open>Properties of the mutation detector\<close>

lemma substitution_loop_unfold:
  "i \<le> k \<Longrightarrow>
   substitution_loop R C k i acc =
     acc @ map (\<lambda>j. \<lparr>mtype = Substitution, position = j, original = [R ! j], mutated = [C ! j]\<rparr>)
             (filter (\<lambda>j. R ! j \<noteq> C ! j) [i..<k])"
proof (induction R C k i acc rule: substitution_loop.induct)
  case (1 R C k i acc)
  show ?case
  proof (cases "i < k")
    case True
    then have "Suc i \<le> k" by simp
    note ih = "1.IH" [OF True this]
    from True have up: "[i..<k] = i # [Suc i..<k]" by (simp add: upt_conv_Cons)
    show ?thesis
      by (subst substitution_loop.simps) (simp add: True ih up)
  next
    case False
    with "1.prems" have "i = k" by simp
    then show ?thesis
      by (subst substitution_loop.simps) simp
  qed
qed

lemma detect_mutations_simple_eq:
  "detect_mutations_simple R C =
     map (\<lambda>i. \<lparr>mtype = Substitution, position = i, original = [R ! i], mutated = [C ! i]\<rparr>)
         (filter (\<lambda>i. R ! i \<noteq> C ! i) [0..<min (length R) (length C)])
     @ (if length C > length R then
          [\<lparr>mtype = Insertion, position = min (length R) (length C), original = [],
            mutated = drop (min (length R) (length C)) C\<rparr>]
        else if length R > length C then
          [\<lparr>mtype = Deletion, position = min (length R) (length C),
            original = drop (min (length R) (length C)) R, mutated = []\<rparr>]
        else [])"
  by (simp add: detect_mutations_simple_def Let_def substitution_loop_unfold)


lemma detect_mutations_simple_swap:
  "detect_mutations_simple C R = map swap_mutation (detect_mutations_simple R C)"
proof -
  have m: "min (length C) (length R) = min (length R) (length C)" by simp
  have f: "filter (\<lambda>i. C ! i \<noteq> R ! i) xs = filter (\<lambda>i. R ! i \<noteq> C ! i) xs" for xs
    by (rule filter_cong) auto
  show ?thesis
    unfolding detect_mutations_simple_eq [of C R] detect_mutations_simple_eq [of R C] m f
    by (simp add: swap_mutation_def)
qed

lemma detect_mutations_simple_Nil_iff:
  "detect_mutations_simple R C = [] \<longleftrightarrow> R = C"
proof
  assume e: "detect_mutations_simple R C = []"
  have len: "length R = length C"
  proof (rule ccontr)
    assume "length R \<noteq> length C"
    then have "detect_mutations_simple R C \<noteq> []"
      by (simp add: detect_mutations_simple_eq)
    with e show False by simp
  qed
  from e have "filter (\<lambda>i. R ! i \<noteq> C ! i) [0..<length C] = []"
    by (simp add: detect_mutations_simple_eq len)
  then have "\<forall>i < length C. R ! i = C ! i"
    by (auto simp: filter_empty_conv)
  with len show "R = C"
    by (simp add: nth_equalityI)
next
  assume "R = C"
  then show "detect_mutations_simple R C = []"
    by (simp add: detect_mutations_simple_eq)
qed

lemma variation_rate_eq:
  "variation_rate vs m n =
     Inr (if min m n = 0 then 0
          else binary64 (binary64 (of_nat (length vs) / of_nat (min m n)) * 100))"
  by (auto simp: variation_rate_def py_truediv_def py_float_mul_def Let_def min_def)

lemma percent_error_nat:
  "0 < n \<Longrightarrow>
   \<bar>binary64 (binary64 (of_nat c / of_nat n) * 100) - of_nat c / of_nat n * 100\<bar>
     \<le> of_nat c / of_nat n * 100 * (3 / 2 ^ 53)"
proof (cases "c = 0")
  case True
  then show ?thesis by (simp add: binary64_zero)
next
  case False
  assume "0 < n"
  with False have "(0::rat) < of_nat c / of_nat n" by simp
  then show ?thesis by (rule percent_error)
qed

text \<open>
  C1. The detector returns the substitution records of the mismatching positions below
  \<open>k = min m n\<close> in increasing order, followed by exactly one insertion record at \<open>k\<close>
  carrying \<open>C[k:n]\<close> when \<open>n > m\<close>, exactly one deletion record at \<open>k\<close> carrying \<open>R[k:m]\<close>
  when \<open>m > n\<close>, and nothing more when \<open>m = n\<close>.
\<close>

theorem detect_mutations_simple_records:
  "detect_mutations_simple R C =
     map (\<lambda>i. \<lparr>mtype = Substitution, position = i, original = [R ! i], mutated = [C ! i]\<rparr>)
         (filter (\<lambda>i. R ! i \<noteq> C ! i) [0..<min (length R) (length C)])
     @ (if length C > length R then
          [\<lparr>mtype = Insertion, position = min (length R) (length C), original = [],
            mutated = drop (min (length R) (length C)) C\<rparr>]
        else if length R > length C then
          [\<lparr>mtype = Deletion, position = min (length R) (length C),
            original = drop (min (length R) (length C)) R, mutated = []\<rparr>]
        else [])"
  by (rule detect_mutations_simple_eq)

text \<open>
  C7. Comparing in the other direction gives the same list with every record swapped: a
  substitution stays at its position with original and mutated exchanged, an insertion
  becomes a deletion at the same position with the same text and a deletion an insertion.
\<close>

theorem detect_mutations_simple_swapped:
  "detect_mutations_simple C R = map swap_mutation (detect_mutations_simple R C)"
  by (rule detect_mutations_simple_swap)

text \<open>
  C10. The detector returns no record exactly when the two sequences are equal, and the
  variation rate of a sequence compared with itself is zero.
\<close>

theorem detect_mutations_simple_empty_iff_equal:
  "(detect_mutations_simple R C = [] \<longleftrightarrow> R = C)
   \<and> variation_rate (detect_mutations_simple R R) (length R) (length R) = Inr 0"
proof -
  have e: "detect_mutations_simple R R = []"
    by (simp add: detect_mutations_simple_Nil_iff)
  have "variation_rate [] (length R) (length R) = Inr 0"
    by (simp add: variation_rate_eq binary64_zero)
  then show ?thesis
    by (simp add: e detect_mutations_simple_Nil_iff)
qed

text \<open>
  C6. The variation rate reported for two sequences is 0 when \<open>min m n = 0\<close> and otherwise
  the float value of the number of mutation records divided by \<open>min m n\<close>, times 100, which
  lies within a relative error of \<open>3 / 2^53\<close> of the exact quotient; the division never
  raises.
\<close>

theorem variation_rate_formula:
  "variation_rate (detect_mutations_simple R C) (length R) (length C) =
     Inr (if min (length R) (length C) = 0 then 0
          else binary64 (binary64 (of_nat (length (detect_mutations_simple R C))
                                   / of_nat (min (length R) (length C))) * 100))
   \<and> (0 < min (length R) (length C) \<longrightarrow>
        \<bar>binary64 (binary64 (of_nat (length (detect_mutations_simple R C))
                              / of_nat (min (length R) (length C))) * 100)
         - of_nat (length (detect_mutations_simple R C))
           / of_nat (min (length R) (length C)) * 100\<bar>
        \<le> of_nat (length (detect_mutations_simple R C))
           / of_nat (min (length R) (length C)) * 100 * (3 / 2 ^ 53))"
  using variation_rate_eq [of "detect_mutations_simple R C" "length R" "length C"]
    percent_error_nat [of "min (length R) (length C)" "length (detect_mutations_simple R C)"]
  by blast

text \<open>
  The rate of C6 for \<open>ACGT\<close> against \<open>AGGTT\<close>: two records over four positions, 50 percent.
\<close>

theorem variation_rate_formula_witness:
  "0 < min (length ''ACGT'') (length ''AGGTT'')
   \<and> variation_rate (detect_mutations_simple ''ACGT'' ''AGGTT'') (length ''ACGT'')
        (length ''AGGTT'') = Inr 50"
proof -
  have e: "binary64 (binary64 (of_nat 2 / of_nat 4) * 100) = 50" by code_simp
  have d: "length (detect_mutations_simple ''ACGT'' ''AGGTT'') = 2"
    by (simp add: detect_mutations_simple_eq)
  have m: "min (length ''ACGT'') (length ''AGGTT'') = 4" by simp
  have l: "length ''ACGT'' = 4" "length ''AGGTT'' = 5" by simp_all
  from variation_rate_formula [of "''ACGT''" "''AGGTT''"]
  have "variation_rate (detect_mutations_simple ''ACGT'' ''AGGTT'') (length ''ACGT'')
        (length ''AGGTT'') = Inr (if min (length ''ACGT'') (length ''AGGTT'') = 0 then 0
          else binary64 (binary64 (of_nat (length (detect_mutations_simple ''ACGT'' ''AGGTT''))
                                   / of_nat (min (length ''ACGT'') (length ''AGGTT''))) * 100))"
    by (rule conjunct1)
  then show ?thesis unfolding d m e by simp
qed

section \<open>Properties of the GC content\<close>

lemma char_of_code:
  "CHR ''G'' = char_of (71::nat)" "CHR ''g'' = char_of (103::nat)"
  "CHR ''C'' = char_of (67::nat)" "CHR ''c'' = char_of (99::nat)"
  "CHR ''S'' = char_of (83::nat)"
proof -
  have "char_of (of_char CHR ''G'' :: nat) = CHR ''G''" by (rule char_of_char)
  then show "CHR ''G'' = char_of (71::nat)" by simp
  have "char_of (of_char CHR ''g'' :: nat) = CHR ''g''" by (rule char_of_char)
  then show "CHR ''g'' = char_of (103::nat)" by simp
  have "char_of (of_char CHR ''C'' :: nat) = CHR ''C''" by (rule char_of_char)
  then show "CHR ''C'' = char_of (67::nat)" by simp
  have "char_of (of_char CHR ''c'' :: nat) = CHR ''c''" by (rule char_of_char)
  then show "CHR ''c'' = char_of (99::nat)" by simp
  have "char_of (of_char CHR ''S'' :: nat) = CHR ''S''" by (rule char_of_char)
  then show "CHR ''S'' = char_of (83::nat)" by simp
qed

lemma upper_char_Some:
  assumes "upper_char c = Some u"
  shows "(\<exists>n::nat. c = char_of n \<and> (97 \<le> n \<and> n \<le> 122 \<or> 224 \<le> n \<and> n \<le> 254)
            \<and> u = [char_of (n - 32)])
         \<or> (c = char_of (223::nat) \<and> u = ''SS'')
         \<or> (\<exists>n::nat. c = char_of n \<and> n < 256 \<and> (n < 97 \<or> 122 < n) \<and> u = [c])"
proof -
  define n where "n = (of_char c :: nat)"
  have lt: "n < 256" unfolding n_def by simp
  have c: "c = char_of n" unfolding n_def by simp
  from assms [unfolded upper_char_def Let_def, folded n_def]
  have u: "(if 97 \<le> n \<and> n \<le> 122 then Some [char_of (n - 32)]
         else if n = 223 then Some ''SS''
         else if n = 181 \<or> n = 255 then None
         else if 224 \<le> n \<and> n \<le> 254 \<and> n \<noteq> 247 then Some [char_of (n - 32)]
         else Some [c]) = Some u" .
  show ?thesis
  proof (cases "97 \<le> n \<and> n \<le> 122")
    case True
    with u have "u = [char_of (n - 32)]" by simp
    with True c show ?thesis by blast
  next
    case r1: False
    show ?thesis
    proof (cases "n = 223")
      case True
      with u r1 have "u = ''SS''" by simp
      with True c show ?thesis by blast
    next
      case r2: False
      show ?thesis
      proof (cases "224 \<le> n \<and> n \<le> 254 \<and> n \<noteq> 247")
        case True
        with u r1 r2 have "u = [char_of (n - 32)]" by (simp split: if_splits)
        with True c show ?thesis by blast
      next
        case False
        with u r1 r2 have "u = [c]" by (simp split: if_splits)
        moreover from r1 have "n < 97 \<or> 122 < n" by linarith
        ultimately show ?thesis using c lt by blast
      qed
    qed
  qed
qed

lemma upper_char_count:
  assumes "upper_char c = Some u"
  shows "count_char u CHR ''G'' + count_char u CHR ''C''
         = (if c \<in> {CHR ''G'', CHR ''g'', CHR ''C'', CHR ''c''} then 1 else 0)"
proof -
  from upper_char_Some [OF assms]
  consider n :: nat where "c = char_of n" "97 \<le> n \<and> n \<le> 122 \<or> 224 \<le> n \<and> n \<le> 254"
      "u = [char_of (n - 32)]"
    | "c = char_of (223::nat)" "u = ''SS''"
    | n :: nat where "c = char_of n" "n < 256" "n < 97 \<or> 122 < n" "u = [c]"
    by blast
  then show ?thesis
  proof cases
    case 1
    then show ?thesis
      unfolding char_of_code count_char_def by (auto simp: char_of_quasi_inj)
  next
    case 2
    then show ?thesis
      unfolding char_of_code count_char_def by (auto simp: char_of_quasi_inj)
  next
    case 3
    then show ?thesis
      unfolding char_of_code count_char_def by (auto simp: char_of_quasi_inj)
  qed
qed

lemma upper_char_length: "upper_char c = Some u \<Longrightarrow> 1 \<le> length u"
  by (drule upper_char_Some) auto

lemma count_char_append: "count_char (u @ v) x = count_char u x + count_char v x"
  by (simp add: count_char_def)

lemma upper_count:
  "upper s = Some u \<Longrightarrow> count_char u CHR ''G'' + count_char u CHR ''C'' = gc_count s"
proof (induction s arbitrary: u)
  case Nil
  then show ?case by (simp add: count_char_def gc_count_def)
next
  case (Cons c s)
  from Cons.prems obtain v w where v: "upper_char c = Some v" and w: "upper s = Some w"
    and u: "u = v @ w" by (auto split: option.splits)
  have "gc_count (c # s) = (if c \<in> {CHR ''G'', CHR ''g'', CHR ''C'', CHR ''c''} then 1 else 0)
          + gc_count s" by (simp add: gc_count_def)
  with Cons.IH [OF w] upper_char_count [OF v] show ?case
    by (simp add: u count_char_append)
qed

lemma upper_length: "upper s = Some u \<Longrightarrow> length s \<le> length u"
proof (induction s arbitrary: u)
  case Nil
  then show ?case by simp
next
  case (Cons c s)
  from Cons.prems obtain v w where v: "upper_char c = Some v" and w: "upper s = Some w"
    and u: "u = v @ w" by (auto split: option.splits)
  from Cons.IH [OF w] upper_char_length [OF v] show ?case by (simp add: u)
qed

lemma upper_ascii: "ascii s \<Longrightarrow> \<exists>u. upper s = Some u \<and> length u = length s"
proof (induction s)
  case Nil
  then show ?case by simp
next
  case (Cons c s)
  from Cons.prems have c: "(of_char c :: nat) < 128" and s: "ascii s" by (simp_all add: ascii_def)
  from Cons.IH [OF s] obtain w where w: "upper s = Some w" "length w = length s" by blast
  from c have "\<exists>x. upper_char c = Some [x]" by (simp add: upper_char_def Let_def)
  then obtain x where "upper_char c = Some [x]" ..
  with w show ?case by simp
qed

lemma gc_count_le: "gc_count s \<le> length s"
  by (simp add: gc_count_def)

lemma calculate_gc_content_upper:
  assumes "upper s = Some u"
  shows "calculate_gc_content s =
     Returns (if s = [] then 0
              else py_round2 (binary64 (binary64 (of_nat (gc_count s) / of_nat (length u)) * 100)))"
proof (cases "s = []")
  case True
  then show ?thesis by (simp add: calculate_gc_content_def)
next
  case False
  with upper_length [OF assms] have "length u \<noteq> 0" by (cases s) auto
  moreover have "(of_nat (count_char u CHR ''G'') + of_nat (count_char u CHR ''C'') :: rat)
                 = of_nat (gc_count s)"
    using upper_count [OF assms] by (simp flip: of_nat_add)
  ultimately show ?thesis using False assms
    by (simp add: calculate_gc_content_def Let_def py_truediv_def py_float_mul_def)
qed

lemma calculate_gc_content_ascii:
  assumes "ascii s"
  shows "calculate_gc_content s =
     Returns (if s = [] then 0
              else py_round2 (binary64 (binary64 (of_nat (gc_count s) / of_nat (length s)) * 100)))"
proof -
  from upper_ascii [OF assms] obtain u where u: "upper s = Some u" "length u = length s" by blast
  from calculate_gc_content_upper [OF u(1)] u(2) show ?thesis by simp
qed

lemma calculate_gc_content_nearest:
  assumes "ascii s" and "s \<noteq> []" and "length s < 2 ^ 37"
  shows "\<exists>k::int. calculate_gc_content s = Returns (binary64 (of_int k / 100))
           \<and> \<bar>of_int k / 100 - of_nat (gc_count s) / of_nat (length s) * 100\<bar> \<le> (1 / 200 :: rat)"
proof -
  from assms(2) have n: "0 < length s" by simp
  let ?k = "round_half_even
              (binary64 (binary64 (of_nat (gc_count s) / of_nat (length s)) * 100) * 100)"
  from assms(1,2) have "calculate_gc_content s = Returns (binary64 (of_int ?k / 100))"
    by (simp add: calculate_gc_content_ascii py_round2_def)
  moreover from hundredth_nearest [OF n assms(3) gc_count_le]
  have "\<bar>of_int ?k / 100 - of_nat (gc_count s) / of_nat (length s) * 100\<bar> \<le> (1 / 200 :: rat)" .
  ultimately show ?thesis by blast
qed

lemma calculate_gc_content_examples:
  "calculate_gc_content ''GGCC'' = Returns 100"
  "calculate_gc_content [] = Returns 0"
  "calculate_gc_content ''atcg'' = Returns 50"
  by code_simp+


section \<open>Properties of the persistence operations\<close>

lemma execute_batch_accepted:
  "batch_accepted accepts (working conn) rows \<Longrightarrow>
   execute_batch accepts conn rows =
     (conn\<lparr>working := (working conn)\<lparr>mutations := mutations (working conn) @ rows\<rparr>\<rparr>, None)"
proof (induction rows arbitrary: conn)
  case Nil
  then show ?case by simp
next
  case (Cons row rows)
  then show ?case by (simp add: insert_mutation_def)
qed

lemma execute_batch_rejected:
  "\<not> batch_accepted accepts (working conn) rows \<Longrightarrow>
   snd (execute_batch accepts conn rows) = Some DatabaseError
   \<and> committed (fst (execute_batch accepts conn rows)) = committed conn"
proof (induction rows arbitrary: conn)
  case Nil
  then show ?case by simp
next
  case (Cons row rows)
  show ?case
  proof (cases "accepts (working conn) row")
    case True
    let ?c = "conn\<lparr>working := (working conn)\<lparr>mutations := mutations (working conn) @ [row]\<rparr>\<rparr>"
    from Cons.prems True have "\<not> batch_accepted accepts (working ?c) rows" by simp
    from Cons.IH [OF this] True show ?thesis by (simp add: insert_mutation_def)
  next
    case False
    then show ?thesis by (simp add: insert_mutation_def)
  qed
qed

lemma log_variations_eq:
  "log_variations accepts db gid vs =
     (if batch_accepted accepts db (mutations_to_log gid vs)
      then (db\<lparr>mutations := mutations db @ mutations_to_log gid vs\<rparr>, Completed)
      else (db, Failed DatabaseError))"
proof (cases "batch_accepted accepts db (mutations_to_log gid vs)")
  case True
  then have "batch_accepted accepts (working (get_connection db)) (mutations_to_log gid vs)"
    by (simp add: get_connection_def)
  from execute_batch_accepted [OF this] True show ?thesis
    by (simp add: log_variations_def Let_def get_connection_def commit_def rollback_def
        release_connection_def)
next
  case False
  then have "\<not> batch_accepted accepts (working (get_connection db)) (mutations_to_log gid vs)"
    by (simp add: get_connection_def)
  from execute_batch_rejected [OF this] False show ?thesis
    by (auto simp: log_variations_def Let_def get_connection_def commit_def rollback_def
        release_connection_def split: prod.splits option.splits)
qed

lemma compare_and_log_mutations_eq:
  "compare_and_log_mutations accepts db ref_id comp_id =
     (case genomes db ref_id of
        None \<Rightarrow> (db, Failed TypeError)
      | Some R \<Rightarrow>
          (case genomes db comp_id of
             None \<Rightarrow> (db, Failed TypeError)
           | Some C \<Rightarrow>
               if detect_mutations_simple R C = [] then (db, NoMutationsFound)
               else log_variations accepts db comp_id (detect_mutations_simple R C)))"
  by (simp add: compare_and_log_mutations_def log_variations_def Let_def get_connection_def
      fetch_sequence_def release_connection_def rollback_def split: option.splits)

lemma search_and_log_patterns_unknown:
  "genomes db gid = None \<Longrightarrow>
   search_and_log_patterns accepts db gid = Some (Returns (db, GenomeNotFound))"
  by (simp add: search_and_log_patterns_def Let_def get_connection_def fetch_sequence_def
      release_connection_def rollback_def)

text \<open>
  C2. A batch of mutation records is written as a whole or not at all. The logging block of
  app.py and \<open>compare_and_log_mutations\<close> end with every row of the batch appended to the
  persisted \<open>mutations\<close> table when no row is rejected, and with the persisted state
  unchanged when a row is rejected (and also when a genome is unknown or there is nothing
  to log).
\<close>

theorem batch_write_all_or_nothing:
  "log_variations accepts db gid vs =
     (if batch_accepted accepts db (mutations_to_log gid vs)
      then (db\<lparr>mutations := mutations db @ mutations_to_log gid vs\<rparr>, Completed)
      else (db, Failed DatabaseError))
   \<and> compare_and_log_mutations accepts db ref_id comp_id =
     (case genomes db ref_id of
        None \<Rightarrow> (db, Failed TypeError)
      | Some R \<Rightarrow>
          (case genomes db comp_id of
             None \<Rightarrow> (db, Failed TypeError)
           | Some C \<Rightarrow>
               if detect_mutations_simple R C = [] then (db, NoMutationsFound)
               else if batch_accepted accepts db
                         (mutations_to_log comp_id (detect_mutations_simple R C))
               then (db\<lparr>mutations := mutations db
                          @ mutations_to_log comp_id (detect_mutations_simple R C)\<rparr>,
                     Completed)
               else (db, Failed DatabaseError)))"
  by (simp add: compare_and_log_mutations_eq log_variations_eq split: option.splits)

text \<open>
  The batch of C2 at a database with the genomes 1 (\<open>ACGT\<close>) and 3 (\<open>AGGTT\<close>): with
  every row accepted both records are persisted; with a constraint that takes the
  substitution and then refuses the insertion, nothing is.
\<close>

theorem batch_write_all_or_nothing_witness:
  "compare_and_log_mutations (\<lambda>t row. True)
     \<lparr>genomes = [1 \<mapsto> ''ACGT'', 3 \<mapsto> ''AGGTT''], patterns = [], mutations = [],
      search_results = []\<rparr> 1 3 =
     (\<lparr>genomes = [1 \<mapsto> ''ACGT'', 3 \<mapsto> ''AGGTT''], patterns = [],
       mutations = [(3, Substitution, 1, ''C'', ''G''), (3, Insertion, 4, [], ''T'')],
       search_results = []\<rparr>, Completed)
   \<and> compare_and_log_mutations (\<lambda>t (g, ty, p, orig, mut). ty = Substitution)
     \<lparr>genomes = [1 \<mapsto> ''ACGT'', 3 \<mapsto> ''AGGTT''], patterns = [], mutations = [],
      search_results = []\<rparr> 1 3 =
     (\<lparr>genomes = [1 \<mapsto> ''ACGT'', 3 \<mapsto> ''AGGTT''], patterns = [], mutations = [],
       search_results = []\<rparr>, Failed DatabaseError)"
  using batch_write_all_or_nothing
    [of "\<lambda>t row. True"
        "\<lparr>genomes = [1 \<mapsto> ''ACGT'', 3 \<mapsto> ''AGGTT''], patterns = [], mutations = [],
          search_results = []\<rparr>" 3 "[]" 1 3]
    batch_write_all_or_nothing
    [of "\<lambda>t (g, ty, p, orig, mut). ty = Substitution"
        "\<lparr>genomes = [1 \<mapsto> ''ACGT'', 3 \<mapsto> ''AGGTT''], patterns = [], mutations = [],
          search_results = []\<rparr>" 3 "[]" 1 3]
  by (simp add: detect_mutations_simple_eq mutations_to_log_def)

text \<open>
  C3. An unknown genome id is reported as not found before any write by
  \<open>search_and_log_patterns\<close>, but \<open>compare_and_log_mutations\<close> reports it as a failed
  transaction carrying a \<open>TypeError\<close>: at a database without genome 99, comparing 99 with 1
  writes nothing and ends with \<open>Failed TypeError\<close>, while searching 99 ends with
  \<open>GenomeNotFound\<close>.
\<close>

theorem compare_unknown_genome_not_reported_as_not_found:
  "compare_and_log_mutations (\<lambda>t row. True)
     \<lparr>genomes = [1 \<mapsto> ''ACGT'', 3 \<mapsto> ''AGGTT''], patterns = [], mutations = [],
      search_results = []\<rparr> 99 1 =
     (\<lparr>genomes = [1 \<mapsto> ''ACGT'', 3 \<mapsto> ''AGGTT''], patterns = [], mutations = [],
       search_results = []\<rparr>, Failed TypeError)
   \<and> search_and_log_patterns (\<lambda>t row. True)
     \<lparr>genomes = [1 \<mapsto> ''ACGT'', 3 \<mapsto> ''AGGTT''], patterns = [], mutations = [],
      search_results = []\<rparr> 99 =
     Some (Returns (\<lparr>genomes = [1 \<mapsto> ''ACGT'', 3 \<mapsto> ''AGGTT''], patterns = [],
                     mutations = [], search_results = []\<rparr>, GenomeNotFound))"
  by (simp add: compare_and_log_mutations_eq search_and_log_patterns_unknown)

section \<open>Properties of the pattern matcher\<close>

lemma star_ends_bounds:
  "e \<in> set (star_ends f n i) \<Longrightarrow> i \<le> e \<and> (i \<le> n \<longrightarrow> e \<le> n)"
proof (induction f n i arbitrary: e rule: star_ends.induct)
  case (1 f n i)
  from "1.prems"
  have "e \<in> set (concat (map (\<lambda>m. if i < m \<and> m \<le> n then star_ends f n m else [i]) (f i)) @ [i])"
    by (subst (asm) star_ends.simps)
  then have "e = i \<or> (\<exists>m \<in> set (f i). e \<in> set (if i < m \<and> m \<le> n then star_ends f n m else [i]))"
    by (auto split: if_splits)
  then show ?case
  proof
    assume "e = i" then show ?thesis by simp
  next
    assume "\<exists>m \<in> set (f i). e \<in> set (if i < m \<and> m \<le> n then star_ends f n m else [i])"
    then obtain m where m: "m \<in> set (f i)"
      and e: "e \<in> set (if i < m \<and> m \<le> n then star_ends f n m else [i])" by blast
    show ?thesis
    proof (cases "i < m \<and> m \<le> n")
      case True
      with e have "e \<in> set (star_ends f n m)" by simp
      from "1.IH" [OF m True this] True show ?thesis by auto
    next
      case False
      with e show ?thesis by simp
    qed
  qed
qed

lemma ends_bounds:
  "e \<in> set (ends r s i) \<Longrightarrow> i \<le> length s \<Longrightarrow> i \<le> e \<and> e \<le> length s"
proof (induction r arbitrary: i e)
  case (Seq a b)
  from Seq.prems(1) obtain m where m: "m \<in> set (ends a s i)" and e: "e \<in> set (ends b s m)"
    by auto
  from Seq.IH(1) [OF m Seq.prems(2)] have "i \<le> m" "m \<le> length s" by auto
  with Seq.IH(2) [OF e] show ?case by auto
next
  case (Star r)
  then show ?case using star_ends_bounds [of e "ends r s" "length s" i] by simp
next
  case (Plus r)
  from Plus.prems(1) obtain m where m: "m \<in> set (ends r s i)"
    and e: "e \<in> set (star_ends (ends r s) (length s) m)" by auto
  from Plus.IH [OF m Plus.prems(2)] have "i \<le> m" "m \<le> length s" by auto
  with star_ends_bounds [OF e] show ?case by auto
qed (auto split: if_splits)

lemma admissible_bounds:
  assumes "admissible r s start adv p = Some e" and "p \<le> length s"
  shows "p \<le> e \<and> e \<le> length s \<and> \<not> (adv \<and> p = start \<and> e = p) \<and> e \<in> set (ends r s p)"
proof -
  from assms(1) obtain i where i: "i < length (ends r s p)" "ends r s p ! i = e"
    and ok: "\<not> (adv \<and> p = start \<and> e = p)"
    unfolding admissible_def find_Some_iff by blast
  from i have mem: "e \<in> set (ends r s p)" by (auto intro: nth_mem)
  from ends_bounds [OF mem assms(2)] ok mem show ?thesis by simp
qed

lemma admissible_later:
  "start < p \<Longrightarrow> admissible r s start adv p = admissible r s start' False p"
  by (simp add: admissible_def)

lemma sre_search_unfold:
  "sre_search r s ptr adv =
     (if length s < ptr then None
      else case admissible r s ptr adv ptr of
             Some e \<Rightarrow> Some (ptr, e)
           | None \<Rightarrow> if ptr < length s then sre_search r s (Suc ptr) False else None)"
  by (subst sre_search.simps) (simp add: admissible_def)

lemma sre_search_Some:
  "sre_search r s ptr adv = Some (a, b) \<Longrightarrow> ptr \<le> length s \<Longrightarrow>
   ptr \<le> a \<and> a \<le> length s
   \<and> list_all (\<lambda>p. admissible r s ptr adv p = None) [ptr..<a]
   \<and> admissible r s ptr adv a = Some b"
proof (induction r s ptr adv rule: sre_search.induct)
  case (1 r s ptr adv)
  show ?case
  proof (cases "admissible r s ptr adv ptr")
    case (Some e)
    with "1.prems" have "a = ptr" "b = e"
      by (subst (asm) sre_search_unfold, simp)+
    with Some "1.prems"(2) show ?thesis by simp
  next
    case None
    with "1.prems" have lt: "ptr < length s" and rec: "sre_search r s (Suc ptr) False = Some (a, b)"
      by (subst (asm) sre_search_unfold, simp split: if_splits)+
    from None have f: "find (\<lambda>e. \<not> (adv \<and> e = ptr)) (ends r s ptr) = None"
      by (simp add: admissible_def)
    from "1.prems"(2) have nl: "\<not> length s < ptr" by simp
    from lt have "Suc ptr \<le> length s" by simp
    from "1.IH" [OF nl f lt rec this]
    have ih: "Suc ptr \<le> a" "a \<le> length s"
      "list_all (\<lambda>p. admissible r s (Suc ptr) False p = None) [Suc ptr..<a]"
      "admissible r s (Suc ptr) False a = Some b" by auto
    from ih(1) have up: "[ptr..<a] = ptr # [Suc ptr..<a]" by (simp add: upt_conv_Cons)
    have conv: "admissible r s ptr adv p = admissible r s (Suc ptr) False p" if "ptr < p" for p
      using that by (rule admissible_later)
    from ih(3) have "list_all (\<lambda>p. admissible r s ptr adv p = None) [Suc ptr..<a]"
      by (auto simp: list_all_iff conv)
    moreover from ih(1,4) have "admissible r s ptr adv a = Some b" by (simp add: conv)
    ultimately show ?thesis using ih(1,2) None by (simp add: up)
  qed
qed

lemma sre_search_None:
  "sre_search r s ptr adv = None \<Longrightarrow> ptr \<le> length s \<Longrightarrow>
   list_all (\<lambda>p. admissible r s ptr adv p = None) [ptr..<Suc (length s)]"
proof (induction r s ptr adv rule: sre_search.induct)
  case (1 r s ptr adv)
  from "1.prems" have None: "admissible r s ptr adv ptr = None"
    by (subst (asm) sre_search_unfold) (simp split: option.splits)
  show ?case
  proof (cases "ptr < length s")
    case True
    with "1.prems" None have rec: "sre_search r s (Suc ptr) False = None"
      by (subst (asm) sre_search_unfold) simp
    from None have f: "find (\<lambda>e. \<not> (adv \<and> e = ptr)) (ends r s ptr) = None"
      by (simp add: admissible_def)
    from "1.prems"(2) have nl: "\<not> length s < ptr" by simp
    from True have "Suc ptr \<le> length s" by simp
    from "1.IH" [OF nl f True rec this]
    have ih: "list_all (\<lambda>p. admissible r s (Suc ptr) False p = None) [Suc ptr..<Suc (length s)]" .
    have conv: "admissible r s ptr adv p = admissible r s (Suc ptr) False p" if "ptr < p" for p
      using that by (rule admissible_later)
    from ih have "list_all (\<lambda>p. admissible r s ptr adv p = None) [Suc ptr..<Suc (length s)]"
      by (auto simp: list_all_iff conv)
    moreover from True have "[ptr..<Suc (length s)] = ptr # [Suc ptr..<Suc (length s)]"
      by (simp add: upt_conv_Cons)
    ultimately show ?thesis using None by simp
  next
    case False
    with "1.prems"(2) have "ptr = length s" by simp
    with None show ?thesis by simp
  qed
qed

lemma scanner_loop_total:
  "start \<le> length s \<Longrightarrow>
   \<exists>spans. scanner_loop r s start adv acc = Some (acc @ spans)
          \<and> scan_from r s start adv (map (match_dict s) spans)"
proof (induction "2 * (length s - start) + (if adv then 0 else 1 :: nat)"
    arbitrary: start adv acc rule: less_induct)
  case less
  show ?case
  proof (cases "sre_search r s start adv")
    case None
    then have "scanner_loop r s start adv acc = Some (acc @ [])"
      by (subst scanner_loop.simps) simp
    moreover from sre_search_None [OF None less.prems]
    have "scan_from r s start adv (map (match_dict s) [])" by simp
    ultimately show ?thesis by blast
  next
    case (Some m)
    obtain a b where m: "m = (a, b)" by (cases m)
    from Some m have srch: "sre_search r s start adv = Some (a, b)" by simp
    from sre_search_Some [OF srch less.prems]
    have p: "start \<le> a" "a \<le> length s"
      "list_all (\<lambda>p. admissible r s start adv p = None) [start..<a]"
      "admissible r s start adv a = Some b" by auto
    from admissible_bounds [OF p(4) p(2)]
    have q: "a \<le> b" "b \<le> length s" "\<not> (adv \<and> a = start \<and> b = a)" by auto
    have dec: "2 * (length s - b) + (if b = a then 0 else 1 :: nat)
               < 2 * (length s - start) + (if adv then 0 else 1)"
      using p(1) q by (auto split: if_splits)
    from less.hyps [OF dec q(2), of "acc @ [(a, b)]"]
    obtain spans where sp: "scanner_loop r s b (b = a) (acc @ [(a, b)]) = Some ((acc @ [(a, b)]) @ spans)"
      and sf: "scan_from r s b (b = a) (map (match_dict s) spans)" by blast
    have "scanner_loop r s start adv acc = Some (acc @ ((a, b) # spans))"
      by (subst scanner_loop.simps) (simp add: srch sp)
    moreover have "scan_from r s start adv (map (match_dict s) ((a, b) # spans))"
      using p sf by (simp add: match_dict_def)
    ultimately show ?thesis by blast
  qed
qed

lemma scan_from_ordered:
  "scan_from r s start adv ms \<Longrightarrow> start \<le> length s \<Longrightarrow>
   ordered_spans ms \<and> progresses_after_zero_width ms
   \<and> list_all (\<lambda>m. m_start m \<le> m_end m \<and> m_end m \<le> length s
                  \<and> matched_sequence m = take (m_end m - m_start m) (drop (m_start m) s)) ms
   \<and> (case ms of [] \<Rightarrow> True
       | m # _ \<Rightarrow> start \<le> m_start m \<and> \<not> (adv \<and> m_start m = start \<and> m_end m = start))"
proof (induction ms arbitrary: start adv)
  case Nil
  then show ?case by simp
next
  case (Cons m ms)
  from Cons.prems(1) have a: "start \<le> m_start m" and le: "m_start m \<le> length s"
    and adm: "admissible r s start adv (m_start m) = Some (m_end m)"
    and tx: "matched_sequence m = take (m_end m - m_start m) (drop (m_start m) s)"
    and rest: "scan_from r s (m_end m) (m_end m = m_start m) ms" by auto
  from admissible_bounds [OF adm le]
  have q: "m_start m \<le> m_end m" "m_end m \<le> length s"
    "\<not> (adv \<and> m_start m = start \<and> m_end m = m_start m)" by auto
  from Cons.IH [OF rest q(2)]
  have ih: "ordered_spans ms" "progresses_after_zero_width ms"
    "list_all (\<lambda>m. m_start m \<le> m_end m \<and> m_end m \<le> length s
                  \<and> matched_sequence m = take (m_end m - m_start m) (drop (m_start m) s)) ms"
    "case ms of [] \<Rightarrow> True
       | m' # _ \<Rightarrow> m_end m \<le> m_start m'
           \<and> \<not> (m_end m = m_start m \<and> m_start m' = m_end m \<and> m_end m' = m_end m)" by auto
  show ?case
  proof (cases ms)
    case Nil
    with a q tx show ?thesis by auto
  next
    case (Cons m' ms')
    with ih(3) have b': "m_start m' \<le> m_end m'" by simp
    from ih(4) Cons have c: "m_end m \<le> m_start m'"
      "\<not> (m_end m = m_start m \<and> m_start m' = m_end m \<and> m_end m' = m_end m)" by auto
    from ih Cons a q tx b' c show ?thesis by auto
  qed
qed

lemma compiled_pattern_scans:
  assumes "re_compile P = Compiled r"
  shows "\<exists>ms. find_patterns_regex S P = Some (Returns ms) \<and> scan_from r S 0 False ms"
proof -
  from scanner_loop_total [of 0 S r False "[]"]
  obtain spans where sp: "scanner_loop r S 0 False [] = Some spans"
    and sf: "scan_from r S 0 False (map (match_dict S) spans)" by auto
  from assms sp have "find_patterns_regex S P = Some (Returns (map (match_dict S) spans))"
    by (simp add: find_patterns_regex_def re_finditer_def)
  with sf show ?thesis by blast
qed

lemma invalid_pattern_returns_Nil:
  "re_compile P = Invalid msg \<Longrightarrow> find_patterns_regex S P = Some (Returns [])"
  by (simp add: find_patterns_regex_def re_finditer_def)

lemma unsupported_pattern_unmodelled:
  "re_compile P = Unsupported \<Longrightarrow> find_patterns_regex S P = Some Unmodelled"
  by (simp add: find_patterns_regex_def re_finditer_def)



text \<open>
  C5, as amended. For a valid pattern \<open>find_patterns_regex\<close> returns the scan of the
  sequence from the left: each record is the leftmost match from the end of the one before
  it, carries its start, its end (0-based, half-open, within the sequence) and the text
  between them; the records do not overlap and their starts do not decrease, and they
  increase strictly after every non-empty match. \<open>GAATTC\<close> in \<open>GAATTCGAATTC\<close> gives
  exactly \<open>(0, 6)\<close> and \<open>(6, 12)\<close>, in that order.
\<close>

theorem find_patterns_regex_scan:
  "(re_compile P = Compiled r \<longrightarrow>
      (\<exists>ms. find_patterns_regex S P = Some (Returns ms)
          \<and> scan_from r S 0 False ms
          \<and> ordered_spans ms
          \<and> list_all (\<lambda>m. m_start m \<le> m_end m \<and> m_end m \<le> length S
                \<and> matched_sequence m = take (m_end m - m_start m) (drop (m_start m) S)) ms))
   \<and> find_patterns_regex ''GAATTCGAATTC'' ''GAATTC'' =
       Some (Returns [\<lparr>m_start = 0, m_end = 6, matched_sequence = ''GAATTC''\<rparr>,
                      \<lparr>m_start = 6, m_end = 12, matched_sequence = ''GAATTC''\<rparr>])"
proof
  show "re_compile P = Compiled r \<longrightarrow>
      (\<exists>ms. find_patterns_regex S P = Some (Returns ms)
          \<and> scan_from r S 0 False ms
          \<and> ordered_spans ms
          \<and> list_all (\<lambda>m. m_start m \<le> m_end m \<and> m_end m \<le> length S
                \<and> matched_sequence m = take (m_end m - m_start m) (drop (m_start m) S)) ms)"
  proof
    assume "re_compile P = Compiled r"
    from compiled_pattern_scans [OF this, of S]
    obtain ms where ms: "find_patterns_regex S P = Some (Returns ms)" "scan_from r S 0 False ms"
      by blast
    from scan_from_ordered [OF ms(2)] ms show "\<exists>ms. find_patterns_regex S P = Some (Returns ms)
          \<and> scan_from r S 0 False ms
          \<and> ordered_spans ms
          \<and> list_all (\<lambda>m. m_start m \<le> m_end m \<and> m_end m \<le> length S
                \<and> matched_sequence m = take (m_end m - m_start m) (drop (m_start m) S)) ms"
      by auto
  qed
  show "find_patterns_regex ''GAATTCGAATTC'' ''GAATTC'' =
       Some (Returns [\<lparr>m_start = 0, m_end = 6, matched_sequence = ''GAATTC''\<rparr>,
                      \<lparr>m_start = 6, m_end = 12, matched_sequence = ''GAATTC''\<rparr>])"
    by code_simp
qed

text \<open>The TATA box pattern of the sample data, searched in \<open>GGTATAAATGG\<close>.\<close>

theorem find_patterns_regex_scan_witness:
  "re_compile ''TATA[AT]A[AT]'' =
     Compiled (Seq (Literal CHR ''T'') (Seq (Literal CHR ''A'') (Seq (Literal CHR ''T'')
       (Seq (Literal CHR ''A'') (Seq (In False [(CHR ''A'', CHR ''A''), (CHR ''T'', CHR ''T'')])
       (Seq (Literal CHR ''A'') (Seq (In False [(CHR ''A'', CHR ''A''), (CHR ''T'', CHR ''T'')])
        Empty)))))))
   \<and> (\<exists>ms. find_patterns_regex ''GGTATAAATGG'' ''TATA[AT]A[AT]'' = Some (Returns ms)
          \<and> ordered_spans ms
          \<and> list_all (\<lambda>m. m_start m \<le> m_end m \<and> m_end m \<le> length ''GGTATAAATGG''
                \<and> matched_sequence m
                    = take (m_end m - m_start m) (drop (m_start m) ''GGTATAAATGG'')) ms)"
proof -
  have c: "re_compile ''TATA[AT]A[AT]'' =
     Compiled (Seq (Literal CHR ''T'') (Seq (Literal CHR ''A'') (Seq (Literal CHR ''T'')
       (Seq (Literal CHR ''A'') (Seq (In False [(CHR ''A'', CHR ''A''), (CHR ''T'', CHR ''T'')])
       (Seq (Literal CHR ''A'') (Seq (In False [(CHR ''A'', CHR ''A''), (CHR ''T'', CHR ''T'')])
        Empty)))))))" by code_simp
  from find_patterns_regex_scan [of "''TATA[AT]A[AT]''" _ "''GGTATAAATGG''"] c
  show ?thesis by blast
qed

text \<open>
  C5 as stated asks for strictly increasing starts. The pattern \<open>|A\<close> in \<open>A\<close> gives the
  empty match at 0 and then the match \<open>(0, 1)\<close>, with the same start.
\<close>

theorem starts_not_strictly_increasing:
  "find_patterns_regex ''A'' ''|A'' =
     Some (Returns [\<lparr>m_start = 0, m_end = 0, matched_sequence = []\<rparr>,
                    \<lparr>m_start = 0, m_end = 1, matched_sequence = ''A''\<rparr>,
                    \<lparr>m_start = 1, m_end = 1, matched_sequence = []\<rparr>])
   \<and> \<not> sorted_wrt (<) (map m_start
           [\<lparr>m_start = 0, m_end = 0, matched_sequence = []\<rparr>,
            \<lparr>m_start = 0, m_end = 1, matched_sequence = ''A''\<rparr>,
            \<lparr>m_start = 1, m_end = 1, matched_sequence = []\<rparr>])"
proof
  show "find_patterns_regex ''A'' ''|A'' =
     Some (Returns [\<lparr>m_start = 0, m_end = 0, matched_sequence = []\<rparr>,
                    \<lparr>m_start = 0, m_end = 1, matched_sequence = ''A''\<rparr>,
                    \<lparr>m_start = 1, m_end = 1, matched_sequence = []\<rparr>])"
    by code_simp
qed simp

text \<open>
  C8, as amended. \<open>find_patterns_regex\<close> returns for every sequence and every pattern, with
  a list of matches when the pattern is valid, also when the pattern can match the empty
  string; after a zero-width match the next match ends beyond it.
\<close>

theorem find_patterns_regex_terminates:
  "find_patterns_regex S P \<noteq> None
   \<and> (re_compile P = Compiled r \<longrightarrow> (\<exists>ms. find_patterns_regex S P = Some (Returns ms)))
   \<and> (find_patterns_regex S P = Some (Returns ms) \<longrightarrow> progresses_after_zero_width ms)"
proof (cases "re_compile P")
  case (Compiled r')
  from compiled_pattern_scans [OF this, of S]
  obtain ms' where ms': "find_patterns_regex S P = Some (Returns ms')" "scan_from r' S 0 False ms'"
    by blast
  from scan_from_ordered [OF ms'(2)] have "progresses_after_zero_width ms'" by simp
  with ms' Compiled show ?thesis by auto
next
  case (Invalid msg)
  from invalid_pattern_returns_Nil [OF this, of S] Invalid show ?thesis by auto
next
  case Unsupported
  from unsupported_pattern_unmodelled [OF this, of S] Unsupported show ?thesis by auto
qed

text \<open>The pattern \<open>(|A)+\<close>, which matches the empty string, searched in \<open>BA\<close>.\<close>

theorem find_patterns_regex_terminates_witness:
  "find_patterns_regex ''BA'' ''(|A)+'' =
     Some (Returns [\<lparr>m_start = 0, m_end = 0, matched_sequence = []\<rparr>,
                    \<lparr>m_start = 1, m_end = 1, matched_sequence = []\<rparr>,
                    \<lparr>m_start = 1, m_end = 2, matched_sequence = ''A''\<rparr>,
                    \<lparr>m_start = 2, m_end = 2, matched_sequence = []\<rparr>])
   \<and> progresses_after_zero_width
       [\<lparr>m_start = 0, m_end = 0, matched_sequence = []\<rparr>,
        \<lparr>m_start = 1, m_end = 1, matched_sequence = []\<rparr>,
        \<lparr>m_start = 1, m_end = 2, matched_sequence = ''A''\<rparr>,
        \<lparr>m_start = 2, m_end = 2, matched_sequence = []\<rparr>]"
proof -
  have e: "find_patterns_regex ''BA'' ''(|A)+'' =
     Some (Returns [\<lparr>m_start = 0, m_end = 0, matched_sequence = []\<rparr>,
                    \<lparr>m_start = 1, m_end = 1, matched_sequence = []\<rparr>,
                    \<lparr>m_start = 1, m_end = 2, matched_sequence = ''A''\<rparr>,
                    \<lparr>m_start = 2, m_end = 2, matched_sequence = []\<rparr>])"
    by code_simp
  from find_patterns_regex_terminates [of "''BA''" "''(|A)+''"] e show ?thesis by blast
qed

text \<open>
  C8 as stated has the scan position advance by at least one after a zero-width match,
  before the next attempt. The pattern \<open>|A\<close> in \<open>BA\<close> gives the empty match at 1 and then
  the match \<open>(1, 2)\<close>: the next attempt was made at the same position.
\<close>

theorem next_attempt_at_same_position:
  "find_patterns_regex ''BA'' ''|A'' =
     Some (Returns [\<lparr>m_start = 0, m_end = 0, matched_sequence = []\<rparr>,
                    \<lparr>m_start = 1, m_end = 1, matched_sequence = []\<rparr>,
                    \<lparr>m_start = 1, m_end = 2, matched_sequence = ''A''\<rparr>,
                    \<lparr>m_start = 2, m_end = 2, matched_sequence = []\<rparr>])
   \<and> \<not> advances_after_zero_width
       [\<lparr>m_start = 0, m_end = 0, matched_sequence = []\<rparr>,
        \<lparr>m_start = 1, m_end = 1, matched_sequence = []\<rparr>,
        \<lparr>m_start = 1, m_end = 2, matched_sequence = ''A''\<rparr>,
        \<lparr>m_start = 2, m_end = 2, matched_sequence = []\<rparr>]"
proof
  show "find_patterns_regex ''BA'' ''|A'' =
     Some (Returns [\<lparr>m_start = 0, m_end = 0, matched_sequence = []\<rparr>,
                    \<lparr>m_start = 1, m_end = 1, matched_sequence = []\<rparr>,
                    \<lparr>m_start = 1, m_end = 2, matched_sequence = ''A''\<rparr>,
                    \<lparr>m_start = 2, m_end = 2, matched_sequence = []\<rparr>])"
    by code_simp
qed simp

end
